theory Spec2Isabelle
  imports Main "HOL-Library.Multiset" "HOL-Library.Char_ord" "HOL-Library.List_Lexorder"
    "HOL-Library.Product_Lexorder"
begin

section \<open>Canonical XML for signatures: the token rewriter of canonical.go\<close>

text \<open>
  The development embeds \<^verbatim>\<open>canonical.go\<close>: the token loop of \<^verbatim>\<open>canonicalize\<close>,
  \<^verbatim>\<open>writeStartElement\<close>, \<^verbatim>\<open>writeNameSapce\<close> and the attribute comparator
  \<^verbatim>\<open>canonAtt.Less\<close>. Go strings are byte strings, so they are \<^typ>\<open>string\<close> here, and
  Go's \<^verbatim>\<open><\<close> on strings is the lexicographic order on bytes, which is the order of
  \<^typ>\<open>char list\<close> given by the library's lexicographic list order over the byte order
  of \<^typ>\<open>char\<close>.
\<close>

subsection \<open>Tokens of encoding/xml\<close>

record Name =
  Space :: string
  Local :: string

record Attr =
  Name :: Name
  Value :: string

record StartElement =
  Name :: Name
  Attr :: "Attr list"

text \<open>
  The token kinds a decoder returns. \<^verbatim>\<open>EndElement\<close> is a struct with the single field
  \<^verbatim>\<open>Name\<close>; \<^verbatim>\<open>ProcInst\<close> carries a target and its instruction.
\<close>

datatype Token =
    StartElement StartElement
  | EndElement Name
  | CharData string
  | Comment string
  | ProcInst string string
  | Directive string

subsection \<open>Library functions on strings\<close>

text \<open>\<^verbatim>\<open>strings.HasPrefix(s, prefix)\<close> and \<^verbatim>\<open>strings.HasSuffix(s, suffix)\<close>.\<close>

definition HasPrefix :: "string \<Rightarrow> string \<Rightarrow> bool" where
  "HasPrefix s pre = (length pre \<le> length s \<and> take (length pre) s = pre)"

definition HasSuffix :: "string \<Rightarrow> string \<Rightarrow> bool" where
  "HasSuffix s suf = (length suf \<le> length s \<and> drop (length s - length suf) s = suf)"

text \<open>The double quote character that the format strings write around a value.\<close>

definition dq :: string where
  "dq = [CHR 0x22]"

subsection \<open>The namespace stack\<close>

text \<open>
  Modelled from the spec: the type \<^verbatim>\<open>stack\<close> with its methods \<^verbatim>\<open>Push\<close>, \<^verbatim>\<open>Pop\<close> and
  \<^verbatim>\<open>Top\<close> is declared outside \<^verbatim>\<open>canonical.go\<close>. The spec (section 4.1) gives its contract:
  push appends an entry (possibly empty); pop removes the most recently pushed entry and
  signals an error on an empty stack; top returns the most recently pushed entry, or a
  "no entries" signal on an empty stack. \<^verbatim>\<open>canonical.go\<close> reads \<^verbatim>\<open>Top\<close> as a pair of a
  string and an error, and the signals are error values here in the same way.
\<close>

type_synonym stack = "string list"

datatype stack_error = EmptyStack

text \<open>
  Modelled from the spec: \<^verbatim>\<open>Push\<close>, missing from the source files, "appends \<^verbatim>\<open>uri\<close>
  (possibly empty) to the stack".
\<close>

definition Push :: "string \<Rightarrow> stack \<Rightarrow> stack" where
  "Push v s = s @ [v]"

text \<open>
  Modelled from the spec: \<^verbatim>\<open>Top\<close>, missing from the source files, "returns the most
  recently pushed entry, or a "no entries" signal if the stack is empty".
\<close>

definition Top :: "stack \<Rightarrow> stack_error + string" where
  "Top s = (if s = [] then Inl EmptyStack else Inr (last s))"

text \<open>
  Modelled from the spec: \<^verbatim>\<open>Pop\<close>, missing from the source files, "removes the most
  recently pushed entry"; "calling pop on an empty stack is a programming-contract
  violation (signals an error)".
\<close>

definition Pop :: "stack \<Rightarrow> stack_error + stack" where
  "Pop s = (if s = [] then Inl EmptyStack else Inr (butlast s))"

subsection \<open>The attribute comparator and the sort\<close>

text \<open>
  \<^verbatim>\<open>canonAtt\<close> implements \<^verbatim>\<open>sort.Interface\<close> on a slice of attributes. \<^verbatim>\<open>Less\<close> reads the
  two names and decides by the early returns below; \<open>lessName\<close> is its body after the
  two reads, so \<open>Less att i j\<close> is meant for indices below \<open>Len att\<close>, the only ones
  the sort passes (Go panics on any other).
\<close>

definition Len :: "Attr list \<Rightarrow> nat" where
  "Len att = length att"

definition Swap :: "Attr list \<Rightarrow> nat \<Rightarrow> nat \<Rightarrow> Attr list" where
  "Swap att i j = att[i := att ! j, j := att ! i]"

definition lessName :: "Name \<Rightarrow> Name \<Rightarrow> bool" where
  "lessName iName jName =
     (if Local iName = ''xmlns'' then True
      else if Local jName = ''xmlns'' then False
      else if Space iName = ''xmlns'' then
        (if Space jName \<noteq> ''xmlns'' then True else Local iName < Local jName)
      else if Space jName = ''xmlns'' then False
      else if Space iName \<noteq> Space jName then Space iName < Space jName
      else Local iName < Local jName)"

definition Less :: "Attr list \<Rightarrow> nat \<Rightarrow> nat \<Rightarrow> bool" where
  "Less att i j = lessName (Attr.Name (att ! i)) (Attr.Name (att ! j))"

text \<open>
  \<^verbatim>\<open>sort.Sort\<close> belongs to Go's standard library. On a slice of at most twelve elements
  it runs the library's insertion sort,
  \<^verbatim>\<open>for i := a + 1; i < b; i++ { for j := i; j > a && data.Less(j, j-1); j-- { data.Swap(j, j-1) } }\<close>,
  and that insertion sort is the model of \<^verbatim>\<open>sort.Sort\<close> here: \<open>sift att j\<close> is the
  inner loop started at \<open>j\<close>, \<open>sort_Sort\<close> the outer loop with \<open>a = 0\<close> and
  \<open>b = Len att\<close>. The model is the library's result on every slice of at most twelve
  attributes, and on every longer slice whose attributes have distinct names with at
  most one local name \<^verbatim>\<open>xmlns\<close>, where the sorted slice is unique (lemma
  \<open>sort_Sort_unique\<close> below). On a longer slice with attributes the comparator does not
  order (the same name twice, or several local names \<^verbatim>\<open>xmlns\<close>) the library sorts by
  another algorithm, which may leave those attributes in another arrangement than the
  insertion sort does. Every instance below that depends on the arrangement of such
  attributes has at most twelve attributes.
\<close>

fun sift :: "Attr list \<Rightarrow> nat \<Rightarrow> Attr list" where
  "sift att 0 = att"
| "sift att (Suc j) = (if Less att (Suc j) j then sift (Swap att (Suc j) j) j else att)"

definition sort_Sort :: "Attr list \<Rightarrow> Attr list" where
  "sort_Sort att = fold (\<lambda>i a. sift a i) [1..<Len att] att"

subsection \<open>Writing a start element\<close>

text \<open>
  \<^verbatim>\<open>writeNameSapce\<close>: the writer is the bytes written so far; the function returns the
  stack after the push and the writer.
\<close>

definition writeNameSapce :: "stack \<Rightarrow> string \<Rightarrow> StartElement \<Rightarrow> stack \<times> string" where
  "writeNameSapce namespaces writer start =
     (let namespace = Space (StartElement.Name start);
          writer' =
            (case Top namespaces of
               Inl err \<Rightarrow>
                 (if HasPrefix namespace ''http''
                  then writer @ '' '' @ ''xmlns'' @ ''='' @ dq @ namespace @ dq
                  else writer)
             | Inr currentNs \<Rightarrow>
                 (if currentNs \<noteq> namespace then
                    (if HasPrefix namespace ''http''
                     then writer @ '' '' @ ''xmlns'' @ ''='' @ dq @ namespace @ dq
                     else writer)
                  else writer))
      in (Push namespace namespaces, writer'))"

text \<open>
  The loop over the sorted attributes, with the prefix map \<^verbatim>\<open>nsmap\<close> it fills on the way.
  Reading a Go map at a key it does not hold gives the empty string.
\<close>

fun writeAttrs :: "Attr list \<Rightarrow> (string \<rightharpoonup> string) \<Rightarrow> string \<Rightarrow> string" where
  "writeAttrs [] nsmap writer = writer"
| "writeAttrs (att # rest) nsmap writer =
     (if ''xmlns'' = Local (Attr.Name att) then writeAttrs rest nsmap writer
      else if ''xmlns'' = Space (Attr.Name att) then
        writeAttrs rest (nsmap(Value att \<mapsto> Local (Attr.Name att)))
          (writer @ '' xmlns:'' @ Local (Attr.Name att) @ ''='' @ dq @ Value att @ dq)
      else if Space (Attr.Name att) = '''' then
        writeAttrs rest nsmap (writer @ '' '' @ Local (Attr.Name att) @ ''='' @ dq @ Value att @ dq)
      else
        writeAttrs rest nsmap
          (writer @ '' '' @ (case nsmap (Space (Attr.Name att)) of None \<Rightarrow> '''' | Some p \<Rightarrow> p)
             @ '':'' @ Local (Attr.Name att) @ ''='' @ dq @ Value att @ dq))"

definition writeStartElement :: "string \<Rightarrow> StartElement \<Rightarrow> stack \<Rightarrow> string \<times> stack" where
  "writeStartElement writer start namespaces =
     (let w1 =
            (if \<not> HasPrefix (Space (StartElement.Name start)) ''http''
             then writer @ ''<'' @ Space (StartElement.Name start) @ '':''
                    @ Local (StartElement.Name start)
             else writer @ ''<'' @ Local (StartElement.Name start));
          attrs = sort_Sort (Attr start);
          (namespaces', w2) = writeNameSapce namespaces w1 (start\<lparr>Attr := attrs\<rparr>);
          w3 = writeAttrs attrs Map.empty w2
      in (w3 @ ''>'', namespaces'))"

subsection \<open>The token loop\<close>

text \<open>
  The state of the loop in \<^verbatim>\<open>canonicalize\<close>: the namespace stack, the bytes written to
  \<^verbatim>\<open>out\<close>, the flag \<^verbatim>\<open>firstElem\<close> and the identifier \<^verbatim>\<open>id\<close>.
\<close>

record state =
  namespaces :: stack
  out :: string
  firstElem :: bool
  id' :: string

text \<open>The scan of the first element's attributes, in the order the token has them.\<close>

fun scanId :: "Attr list \<Rightarrow> string \<Rightarrow> string" where
  "scanId [] i = i"
| "scanId (a # rest) i =
     (let localName = Local (Attr.Name a) in
      if localName = ''ID'' \<or> localName = ''Id'' \<or> HasSuffix localName ''Id''
      then scanId rest (Value a)
      else scanId rest i)"

text \<open>
  One pass of the loop body on a token. The call \<^verbatim>\<open>namespaces.Pop()\<close> is a statement:
  what \<^verbatim>\<open>Pop\<close> returns is dropped, and a failed pop leaves the stack as it was. The switch
  has no case for comments, processing instructions and directives.
\<close>

fun step :: "Token \<Rightarrow> state \<Rightarrow> state" where
  "step (StartElement t) s =
     (let s1 = (if firstElem s
                then s\<lparr>firstElem := False, id' := scanId (Attr t) (id' s)\<rparr>
                else s);
          (w, ns) = writeStartElement (out s1) t (namespaces s1)
      in s1\<lparr>namespaces := ns, out := w\<rparr>)"
| "step (EndElement t) s =
     (let ns = (case Pop (namespaces s) of Inl err \<Rightarrow> namespaces s | Inr ns' \<Rightarrow> ns')
      in if \<not> HasPrefix (Space t) ''http''
         then s\<lparr>namespaces := ns, out := out s @ ''</'' @ Space t @ '':'' @ Local t @ ''>''\<rparr>
         else s\<lparr>namespaces := ns, out := out s @ ''</'' @ Local t @ ''>''\<rparr>)"
| "step (CharData t) s = s\<lparr>out := out s @ t\<rparr>"
| "step (Comment t) s = s"
| "step (ProcInst t i) s = s"
| "step (Directive t) s = s"

text \<open>
  The decoder is what \<^verbatim>\<open>decoder.Token()\<close> returns call after call: a token, or an
  error. It reads a finite buffer, so it is a list; past its end the decoder returns
  \<^verbatim>\<open>io.EOF\<close>. The loop breaks at the first error of any kind.
\<close>

datatype decode_error = EOF | SyntaxError string

type_synonym decoder = "(decode_error + Token) list"

fun loop :: "decoder \<Rightarrow> state \<Rightarrow> state" where
  "loop [] s = s"
| "loop (Inl err # rest) s = s"
| "loop (Inr token # rest) s = loop rest (step token s)"

text \<open>
  \<^verbatim>\<open>canonicalize\<close>. The marshalling \<^verbatim>\<open>encoder.Encode(data)\<close> and the decoder that reads
  its bytes back are the standard library's: the argument is the outcome of the two,
  the error of \<^verbatim>\<open>Encode\<close> or the decoder over the bytes it wrote. The result is the
  triple the Go function returns; a nil byte slice is the empty string, a nil error
  is \<open>None\<close>.
\<close>

datatype marshal_error = MarshalError string

definition init :: state where
  "init = \<lparr>namespaces = [], out = [], firstElem = True, id' = []\<rparr>"

definition canonicalize ::
  "marshal_error + decoder \<Rightarrow> string \<times> string \<times> marshal_error option" where
  "canonicalize encoded =
     (case encoded of
        Inl err \<Rightarrow> ([], [], Some err)
      | Inr d \<Rightarrow> (let s = loop d init in (out s, id' s, None)))"

subsection \<open>The canonical attribute order, as the specification words it\<close>

text \<open>
  The specification orders attributes by three rules: an attribute whose local name is
  \<^verbatim>\<open>xmlns\<close> comes first; then the prefixed namespace declarations (namespace component
  \<^verbatim>\<open>xmlns\<close>) by local name; then all others by namespace URI and then local name.
  \<open>canon_key\<close> is that rule as a sort key: the rank of the rule, then the strings the
  rule compares, in the lexicographic order of triples.
\<close>

definition canon_key :: "Name \<Rightarrow> nat \<times> string \<times> string" where
  "canon_key n =
     (if Local n = ''xmlns'' then (0, [], [])
      else if Space n = ''xmlns'' then (1, [], Local n)
      else (2, Space n, Local n))"

text \<open>
  The insertion of the inner loop on lists: \<open>insr x ys\<close> moves \<open>x\<close> into \<open>ys\<close>, the
  slice to the left of \<open>x\<close> read from right to left.
\<close>

fun insr :: "Attr \<Rightarrow> Attr list \<Rightarrow> Attr list" where
  "insr x [] = [x]"
| "insr x (y # ys) =
     (if lessName (Attr.Name x) (Attr.Name y) then y # insr x ys else x # y # ys)"

subsection \<open>The identifier and the prefix map, as the specification words them\<close>

text \<open>
  A local name qualifies for the identifier when it is exactly \<^verbatim>\<open>ID\<close>, exactly \<^verbatim>\<open>Id\<close>, or
  ends with \<^verbatim>\<open>Id\<close>.
\<close>

definition idName :: "string \<Rightarrow> bool" where
  "idName localName = (localName = ''ID'' \<or> localName = ''Id'' \<or> HasSuffix localName ''Id'')"

text \<open>
  The first start token the loop reaches: the first start token of the decoder, if no
  error comes before it.
\<close>

fun firstStart :: "decoder \<Rightarrow> StartElement option" where
  "firstStart [] = None"
| "firstStart (Inl err # rest) = None"
| "firstStart (Inr (StartElement t) # rest) = Some t"
| "firstStart (Inr token # rest) = firstStart rest"

text \<open>
  The prefixed namespace declarations \<^verbatim>\<open>xmlns:prefix="uri"\<close> of an element are the
  attributes the loop records in the prefix map. \<open>declared atts\<close> is the prefix map of
  an element with the attributes \<open>atts\<close>: a URI has a prefix when some declaration of
  the element declares it, and of several prefixes declared for one URI it has the
  greatest in the order of strings.
\<close>

definition isDecl :: "Attr \<Rightarrow> bool" where
  "isDecl a = (Local (Attr.Name a) \<noteq> ''xmlns'' \<and> Space (Attr.Name a) = ''xmlns'')"

definition declared :: "Attr list \<Rightarrow> string \<rightharpoonup> string" where
  "declared atts uri =
     (let ps = map (\<lambda>d. Local (Attr.Name d)) (filter (\<lambda>d. isDecl d \<and> Value d = uri) atts)
      in if ps = [] then None else Some (Max (set ps)))"

text \<open>The update of \<^verbatim>\<open>nsmap\<close> that one pass of the attribute loop makes.\<close>

definition record_decl :: "(string \<rightharpoonup> string) \<Rightarrow> Attr \<Rightarrow> (string \<rightharpoonup> string)" where
  "record_decl m a = (if isDecl a then m(Value a \<mapsto> Local (Attr.Name a)) else m)"

subsection \<open>Well-nested runs of tokens\<close>


section \<open>Properties\<close>

subsection \<open>The comparator and the sort\<close>

lemma lessName_key: "lessName n m \<longleftrightarrow> Local n = ''xmlns'' \<or> canon_key n < canon_key m"
  by (auto simp: lessName_def canon_key_def)

lemma lessName_le: "lessName n m \<Longrightarrow> canon_key n \<le> canon_key m"
  by (auto simp: lessName_def canon_key_def split: if_splits)

lemma not_lessName_le: "\<not> lessName n m \<Longrightarrow> canon_key m \<le> canon_key n"
  by (auto simp: lessName_def canon_key_def split: if_splits)

lemma length_insr: "length (insr x ys) = Suc (length ys)"
  by (induction ys) auto

lemma mset_insr: "mset (insr x ys) = add_mset x (mset ys)"
  by (induction ys) auto

lemma set_insr: "set (insr x ys) = insert x (set ys)"
  by (induction ys) auto

lemma Swap_adjacent:
  "Swap (pre @ y # x # rest) (Suc (length pre)) (length pre) = pre @ x # y # rest"
  by (simp add: Swap_def list_update_append nth_append)

lemma sift_insr:
  "j < length att \<Longrightarrow>
   sift att j = rev (insr (att ! j) (rev (take j att))) @ drop (Suc j) att"
proof (induction j arbitrary: att)
  case 0
  then show ?case by (cases att) auto
next
  case (Suc k)
  from Suc.prems have "att = take k att @ att ! k # att ! Suc k # drop (Suc (Suc k)) att"
    by (metis Cons_nth_drop_Suc Suc_lessD append_take_drop_id)
  moreover from Suc.prems have "length (take k att) = k" by simp
  ultimately obtain pre y x rest where att: "att = pre @ y # x # rest" and lp: "length pre = k"
    by blast
  have less: "Less att (Suc k) k = lessName (Attr.Name x) (Attr.Name y)"
    by (simp add: Less_def att nth_append lp)
  have rhs: "rev (insr (att ! Suc k) (rev (take (Suc k) att))) @ drop (Suc (Suc k)) att
      = rev (insr x (y # rev pre)) @ rest"
    by (simp add: att nth_append lp)
  show ?case
  proof (cases "lessName (Attr.Name x) (Attr.Name y)")
    case True
    have sw: "Swap att (Suc k) k = pre @ x # y # rest"
      using Swap_adjacent [of pre y x rest] by (simp add: att lp)
    have "sift att (Suc k) = sift (pre @ x # y # rest) k"
      using True less sw by simp
    also have "\<dots> = rev (insr x (rev pre)) @ y # rest"
      using Suc.IH [of "pre @ x # y # rest"] by (simp add: lp nth_append)
    finally show ?thesis using True by (simp add: rhs)
  next
    case False
    then have "sift att (Suc k) = att" using less by simp
    then show ?thesis using False by (simp add: rhs) (simp add: att)
  qed
qed

lemma length_foldl_insr: "length (foldl (\<lambda>acc x. insr x acc) acc xs) = length acc + length xs"
  by (induction xs arbitrary: acc) (auto simp: length_insr)

lemma fold_sift:
  "n \<le> length att \<Longrightarrow>
   fold (\<lambda>i a. sift a i) [1..<n] att
     = rev (foldl (\<lambda>acc x. insr x acc) [] (take n att)) @ drop n att"
proof (induction n)
  case 0
  then show ?case by simp
next
  case (Suc n)
  show ?case
  proof (cases "n = 0")
    case True
    with Suc.prems show ?thesis by (cases att) auto
  next
    case False
    let ?F = "foldl (\<lambda>acc x. insr x acc) []"
    let ?att' = "rev (?F (take n att)) @ drop n att"
    from Suc.prems have n: "n < length att" by simp
    have lF: "length (?F (take n att)) = n" using n by (simp add: length_foldl_insr)
    from False have "Suc 0 \<le> n" by simp
    then have upt: "[1..<Suc n] = [1..<n] @ [n]" by simp
    have "fold (\<lambda>i a. sift a i) [1..<Suc n] att = sift ?att' n"
      using Suc.IH n by (simp only: upt fold_append fold.simps comp_def id_def)
    also have "\<dots> = rev (insr (?att' ! n) (rev (take n ?att'))) @ drop (Suc n) ?att'"
      by (rule sift_insr) (use n lF in simp)
    also have "?att' ! n = att ! n" using n lF by (simp add: nth_append)
    also have "take n ?att' = rev (?F (take n att))" using lF by simp
    also have "drop (Suc n) ?att' = drop (Suc n) att" using lF n by simp
    finally show ?thesis using n by (simp add: take_Suc_conv_app_nth)
  qed
qed

lemma sort_Sort_insr: "sort_Sort att = rev (foldl (\<lambda>acc x. insr x acc) [] att)"
  using fold_sift [of "length att" att] by (simp add: sort_Sort_def Len_def)

lemma mset_foldl_insr: "mset (foldl (\<lambda>acc x. insr x acc) acc xs) = mset acc + mset xs"
  by (induction xs arbitrary: acc) (auto simp: mset_insr)

lemma mset_sort_Sort: "mset (sort_Sort att) = mset att"
  by (simp add: sort_Sort_insr mset_foldl_insr)

lemma sorted_insr:
  "sorted (map (\<lambda>a. canon_key (Attr.Name a)) (rev ys)) \<Longrightarrow>
   sorted (map (\<lambda>a. canon_key (Attr.Name a)) (rev (insr x ys)))"
proof (induction ys)
  case Nil
  then show ?case by simp
next
  case (Cons y ys)
  show ?case
  proof (cases "lessName (Attr.Name x) (Attr.Name y)")
    case True
    from Cons.prems have s: "sorted (map (\<lambda>a. canon_key (Attr.Name a)) (rev ys))"
      and b: "\<forall>z\<in>set ys. canon_key (Attr.Name z) \<le> canon_key (Attr.Name y)"
      by (auto simp: sorted_append)
    from Cons.IH [OF s] b True lessName_le [OF True] show ?thesis
      by (auto simp: sorted_append set_insr)
  next
    case False
    from not_lessName_le [OF False] Cons.prems False show ?thesis
      by (auto simp: sorted_append intro: order_trans)
  qed
qed

lemma sorted_foldl_insr:
  "sorted (map (\<lambda>a. canon_key (Attr.Name a)) (rev acc)) \<Longrightarrow>
   sorted (map (\<lambda>a. canon_key (Attr.Name a)) (rev (foldl (\<lambda>acc x. insr x acc) acc xs)))"
  by (induction xs arbitrary: acc) (auto simp: sorted_insr)

lemma sorted_sort_Sort: "sorted (map (\<lambda>a. canon_key (Attr.Name a)) (sort_Sort att))"
  using sorted_foldl_insr [of "[]" att] by (simp add: sort_Sort_insr)

lemma lessName_both:
  "lessName n m \<Longrightarrow> lessName m n \<Longrightarrow> Local n = ''xmlns'' \<and> Local m = ''xmlns''"
  by (auto simp: lessName_key canon_key_def split: if_splits)

lemma filter_two:
  assumes "i < j" "j < length xs" "P (xs ! i)" "P (xs ! j)"
  shows "2 \<le> length (filter P xs)"
proof -
  from assms have i: "i < length xs" by simp
  have "xs = take i xs @ xs ! i # drop (Suc i) xs"
    using i by (rule id_take_nth_drop)
  moreover have "drop (Suc i) xs ! (j - Suc i) = xs ! j"
    using assms by simp
  moreover have "j - Suc i < length (drop (Suc i) xs)" using assms by simp
  ultimately obtain us vs where xs: "xs = us @ xs ! i # vs" and v: "xs ! j \<in> set vs"
    by (metis nth_mem)
  have "1 \<le> length (filter P vs)"
    using v assms(4) by (metis One_nat_def Suc_leI filter_empty_conv length_greater_0_conv)
  then have "2 \<le> length (filter P (us @ xs ! i # vs))" using assms(3) by simp
  then show ?thesis using xs by simp
qed

lemma two_filter:
  assumes "2 \<le> length (filter P xs)"
  shows "\<exists>i j. i < j \<and> j < length xs \<and> P (xs ! i) \<and> P (xs ! j)"
proof -
  from assms obtain a b r where f: "filter P xs = a # b # r"
    by (cases "filter P xs"; cases "tl (filter P xs)") auto
  from filter_eq_ConsD [OF f] obtain us vs
    where xs: "xs = us @ a # vs" and a: "P a" and r: "b # r = filter P vs"
    by blast
  from filter_eq_ConsD [OF r [symmetric]] obtain us' vs'
    where vs: "vs = us' @ b # vs'" and b: "P b"
    by blast
  have "xs ! length us = a" by (simp add: xs)
  moreover have "xs ! (length us + Suc (length us')) = b"
    by (simp add: xs vs nth_append)
  moreover have "length us + Suc (length us') < length xs" by (simp add: xs vs)
  moreover have "length us < length us + Suc (length us')" by simp
  ultimately show ?thesis using a b by blast
qed

subsection \<open>Writing attributes, the token loop and the identifier\<close>

lemma writeAttrs_append: "writeAttrs atts m w = w @ writeAttrs atts m []"
proof (induction atts arbitrary: m w)
  case Nil
  then show ?case by simp
next
  case (Cons a atts)
  have *: "writeAttrs atts m' (w @ u) = w @ writeAttrs atts m' u" for m' u
    using Cons.IH [of m' "w @ u"] Cons.IH [of m' u] by simp
  show ?case using Cons.IH [of m w] by (simp add: *)
qed

lemma writeNameSapce_eq:
  "writeNameSapce ns w start =
     (Push (Space (StartElement.Name start)) ns,
      if HasPrefix (Space (StartElement.Name start)) ''http''
         \<and> (ns = [] \<or> Top ns \<noteq> Inr (Space (StartElement.Name start)))
      then w @ '' xmlns='' @ dq @ Space (StartElement.Name start) @ dq
      else w)"
  by (simp add: writeNameSapce_def Top_def Let_def)

lemma writeStartElement_eq:
  "writeStartElement w start ns =
     (w @ (if HasPrefix (Space (StartElement.Name start)) ''http''
           then ''<'' @ Local (StartElement.Name start)
           else ''<'' @ Space (StartElement.Name start) @ '':'' @ Local (StartElement.Name start))
        @ (if HasPrefix (Space (StartElement.Name start)) ''http''
              \<and> (ns = [] \<or> Top ns \<noteq> Inr (Space (StartElement.Name start)))
           then '' xmlns='' @ dq @ Space (StartElement.Name start) @ dq
           else [])
        @ writeAttrs (sort_Sort (Attr start)) Map.empty [] @ ''>'',
      Push (Space (StartElement.Name start)) ns)"
  unfolding writeStartElement_def Let_def writeNameSapce_eq
  by (subst writeAttrs_append) simp


lemma step_StartElement_out:
  "out (step (StartElement t) s) = fst (writeStartElement (out s) t (namespaces s))"
  by (simp add: writeStartElement_eq Let_def)

lemma step_StartElement_firstElem: "\<not> firstElem (step (StartElement t) s)"
  by (simp add: writeStartElement_eq Let_def)

lemma step_StartElement_id:
  "id' (step (StartElement t) s) = (if firstElem s then scanId (Attr t) (id' s) else id' s)"
  by (simp add: writeStartElement_eq Let_def)

lemma step_keeps_id: "\<not> firstElem s \<Longrightarrow> id' (step token s) = id' s \<and> \<not> firstElem (step token s)"
  by (cases token)
    (simp_all add: step_StartElement_id step_StartElement_firstElem Let_def del: step.simps(1))

lemma loop_keeps_id: "\<not> firstElem s \<Longrightarrow> id' (loop d s) = id' s \<and> \<not> firstElem (loop d s)"
proof (induction d s rule: loop.induct)
  case (3 token rest s)
  then show ?case using step_keeps_id [of s token] by simp
qed simp_all

lemma loop_id_firstStart:
  "firstElem s \<Longrightarrow>
   id' (loop d s) = (case firstStart d of None \<Rightarrow> id' s | Some t \<Rightarrow> scanId (Attr t) (id' s))"
proof (induction d arbitrary: s rule: firstStart.induct)
  case (3 t rest)
  have "\<not> firstElem (step (StartElement t) s)" by (rule step_StartElement_firstElem)
  from loop_keeps_id [OF this, of rest] 3 show ?case
    by (simp add: step_StartElement_id del: step.simps)
qed (simp_all add: Let_def split: option.splits)

lemma scanId_last:
  "scanId atts i =
     (case filter (\<lambda>a. idName (Local (Attr.Name a))) atts of
        [] \<Rightarrow> i
      | q # qs \<Rightarrow> Value (last (q # qs)))"
proof (induction atts arbitrary: i)
  case Nil
  then show ?case by simp
next
  case (Cons a atts)
  show ?case
    by (simp add: Cons.IH idName_def Let_def split: list.splits)
qed

lemma HasSuffix_iff: "HasSuffix s suf \<longleftrightarrow> (\<exists>p. s = p @ suf)"
proof
  assume "HasSuffix s suf"
  then have "s = take (length s - length suf) s @ suf"
    by (metis HasSuffix_def append_take_drop_id)
  then show "\<exists>p. s = p @ suf" ..
next
  assume "\<exists>p. s = p @ suf"
  then show "HasSuffix s suf" by (auto simp: HasSuffix_def)
qed

lemma loop_append_tokens: "loop (map Inr toks @ rest) s = loop rest (fold step toks s)"
  by (induction toks arbitrary: s) simp_all

lemma scanId_drop_id:
  "scanId (filter (\<lambda>a. Local (Attr.Name a) \<noteq> ''id'') atts) i = scanId atts i"
  by (induction atts arbitrary: i) (auto simp: Let_def HasSuffix_def)


lemma writeAttrs_Cons:
  "writeAttrs (a # atts) m [] = writeAttrs [a] m [] @ writeAttrs atts (record_decl m a) []"
  using writeAttrs_append [of atts _ "_ # _"]
  by (auto simp: record_decl_def isDecl_def)

lemma writeAttrs_single_indep:
  "Local (Attr.Name a) = ''xmlns'' \<or> Space (Attr.Name a) = ''xmlns'' \<or> Space (Attr.Name a) = [] \<Longrightarrow>
   writeAttrs [a] m [] = writeAttrs [a] m' []"
  by auto

lemma foldl_record_decl_none:
  "\<forall>x\<in>set xs. \<not> isDecl x \<Longrightarrow> foldl record_decl m xs = m"
  by (induction xs arbitrary: m) (auto simp: record_decl_def)

lemma sorted_after_ordinary:
  assumes "sorted (map (\<lambda>a. canon_key (Attr.Name a)) (a # xs))"
    and "Local (Attr.Name a) \<noteq> ''xmlns''" "Space (Attr.Name a) \<noteq> ''xmlns''"
  shows "\<forall>x\<in>set xs. \<not> isDecl x"
proof
  fix x assume "x \<in> set xs"
  with assms(1) have "canon_key (Attr.Name a) \<le> canon_key (Attr.Name x)" by auto
  with assms(2,3) show "\<not> isDecl x"
    by (auto simp: canon_key_def isDecl_def split: if_splits)
qed

lemma writeAttrs_final:
  "sorted (map (\<lambda>a. canon_key (Attr.Name a)) xs) \<Longrightarrow>
   writeAttrs xs m [] = concat (map (\<lambda>a. writeAttrs [a] (foldl record_decl m xs) []) xs)"
proof (induction xs arbitrary: m)
  case Nil
  then show ?case by simp
next
  case (Cons a xs)
  from Cons.prems have s: "sorted (map (\<lambda>a. canon_key (Attr.Name a)) xs)" by simp
  have rest: "writeAttrs xs (record_decl m a) []
      = concat (map (\<lambda>b. writeAttrs [b] (foldl record_decl m (a # xs)) []) xs)"
    using Cons.IH [OF s, of "record_decl m a"] by simp
  have hd: "writeAttrs [a] m [] = writeAttrs [a] (foldl record_decl m (a # xs)) []"
  proof (cases "Local (Attr.Name a) = ''xmlns'' \<or> Space (Attr.Name a) = ''xmlns''
      \<or> Space (Attr.Name a) = []")
    case True
    then show ?thesis by (rule writeAttrs_single_indep)
  next
    case False
    then have "\<forall>x\<in>set xs. \<not> isDecl x"
      using sorted_after_ordinary [OF Cons.prems] by simp
    moreover from False have "\<not> isDecl a" by (simp add: isDecl_def)
    ultimately have "foldl record_decl m (a # xs) = m"
      using foldl_record_decl_none [of "a # xs" m] by simp
    then show ?thesis by simp
  qed
  show ?case
    by (subst writeAttrs_Cons) (simp only: rest hd list.map concat.simps)
qed

lemma foldl_record_decl_lookup:
  "foldl record_decl m xs uri =
     (case filter (\<lambda>d. isDecl d \<and> Value d = uri) xs of
        [] \<Rightarrow> m uri
      | d # ds \<Rightarrow> Some (Local (Attr.Name (last (d # ds)))))"
proof (induction xs arbitrary: m)
  case Nil
  then show ?case by simp
next
  case (Cons a xs)
  have upd: "record_decl m a uri
      = (if isDecl a \<and> Value a = uri then Some (Local (Attr.Name a)) else m uri)"
    by (simp add: record_decl_def)
  have "foldl record_decl m (a # xs) uri = foldl record_decl (record_decl m a) xs uri"
    by simp
  also have "\<dots> = (case filter (\<lambda>d. isDecl d \<and> Value d = uri) xs of
        [] \<Rightarrow> record_decl m a uri
      | d # ds \<Rightarrow> Some (Local (Attr.Name (last (d # ds)))))"
    by (rule Cons.IH)
  also have "\<dots> = (case filter (\<lambda>d. isDecl d \<and> Value d = uri) (a # xs) of
        [] \<Rightarrow> m uri
      | d # ds \<Rightarrow> Some (Local (Attr.Name (last (d # ds)))))"
    by (simp add: upd split: list.splits)
  finally show ?case .
qed

lemma last_sorted_Max:
  fixes xs :: "('a :: linorder) list"
  shows "sorted xs \<Longrightarrow> xs \<noteq> [] \<Longrightarrow> last xs = Max (set xs)"
proof (induction xs)
  case Nil
  then show ?case by simp
next
  case (Cons a xs)
  show ?case
  proof (cases "xs = []")
    case True
    then show ?thesis by simp
  next
    case False
    with Cons have l: "last xs = Max (set xs)" by simp
    from False have "Max (set xs) \<in> set xs" by simp
    with Cons.prems have "a \<le> Max (set xs)" by simp
    then have "Max (insert a (set xs)) = Max (set xs)"
      using False by (simp add: max_absorb2)
    with False l show ?thesis by simp
  qed
qed

lemma sorted_decl_prefixes:
  "sorted (map (\<lambda>a. canon_key (Attr.Name a)) xs) \<Longrightarrow> \<forall>x\<in>set xs. isDecl x \<Longrightarrow>
   sorted (map (\<lambda>d. Local (Attr.Name d)) xs)"
proof (induction xs)
  case Nil
  then show ?case by simp
next
  case (Cons a xs)
  have "Local (Attr.Name a) \<le> Local (Attr.Name x)" if "x \<in> set xs" for x
  proof -
    from Cons.prems that have "canon_key (Attr.Name a) \<le> canon_key (Attr.Name x)" by auto
    moreover from Cons.prems that have "isDecl a" "isDecl x" by auto
    ultimately show ?thesis by (simp add: canon_key_def isDecl_def)
  qed
  with Cons show ?case by auto
qed

lemma set_sort_Sort: "set (sort_Sort atts) = set atts"
  using mset_sort_Sort [of atts] by (metis set_mset_mset)

lemma final_map_declared: "foldl record_decl Map.empty (sort_Sort atts) = declared atts"
proof
  fix uri
  let ?P = "\<lambda>d. isDecl d \<and> Value d = uri"
  let ?ds = "filter ?P (sort_Sort atts)"
  have set_eq: "set (map (\<lambda>d. Local (Attr.Name d)) ?ds)
      = set (map (\<lambda>d. Local (Attr.Name d)) (filter ?P atts))"
    by (simp add: set_sort_Sort)
  show "foldl record_decl Map.empty (sort_Sort atts) uri = declared atts uri"
  proof (cases "?ds = []")
    case True
    then have "filter ?P atts = []"
      by (metis (no_types, lifting) filter_empty_conv set_sort_Sort)
    with True show ?thesis by (simp add: foldl_record_decl_lookup declared_def)
  next
    case False
    then have ne: "filter ?P atts \<noteq> []"
      by (metis (no_types, lifting) filter_empty_conv set_sort_Sort)
    have "sorted (map (\<lambda>a. canon_key (Attr.Name a)) ?ds)"
      using sorted_sort_Sort by (rule sorted_filter)
    then have "sorted (map (\<lambda>d. Local (Attr.Name d)) ?ds)"
      by (rule sorted_decl_prefixes) simp
    with False have "last (map (\<lambda>d. Local (Attr.Name d)) ?ds)
        = Max (set (map (\<lambda>d. Local (Attr.Name d)) ?ds))"
      by (intro last_sorted_Max) simp_all
    moreover have "last (map (\<lambda>d. Local (Attr.Name d)) ?ds) = Local (Attr.Name (last ?ds))"
      using False by (rule last_map)
    ultimately have "Local (Attr.Name (last ?ds))
        = Max (set (map (\<lambda>d. Local (Attr.Name d)) (filter ?P atts)))"
      by (simp only: set_eq)
    then have k: "Max (set (map (\<lambda>d. Local (Attr.Name d)) (filter ?P atts)))
        = Local (Attr.Name (last ?ds))" by simp
    from False obtain d ds where dds: "?ds = d # ds" by (cases ?ds) auto
    have lhs: "foldl record_decl Map.empty (sort_Sort atts) uri
        = Some (Local (Attr.Name (last ?ds)))"
      unfolding foldl_record_decl_lookup dds by simp
    from ne have "map (\<lambda>d. Local (Attr.Name d)) (filter ?P atts) \<noteq> []" by simp
    then have "declared atts uri
        = Some (Max (set (map (\<lambda>d. Local (Attr.Name d)) (filter ?P atts))))"
      unfolding declared_def Let_def by (simp only: if_False)
    with lhs k show ?thesis by simp
  qed
qed

lemma writeAttrs_sorted_declared:
  "writeAttrs (sort_Sort atts) Map.empty [] =
     concat (map (\<lambda>a. writeAttrs [a] (declared atts) []) (sort_Sort atts))"
  using writeAttrs_final [OF sorted_sort_Sort, of atts Map.empty]
  by (simp only: final_map_declared)

subsection \<open>The comparator on slices\<close>

text \<open>
  Claim C9. The comparator is asymmetric on a slice exactly when at most one attribute
  of the slice has the local name \<^verbatim>\<open>xmlns\<close>: for two distinct indices the comparator never
  answers true both ways in such a slice, and only in such a slice. For any two
  attributes that both have the local name \<^verbatim>\<open>xmlns\<close> it answers true for both orderings
  of the pair, so it is no strict order there and does not fix their order.
\<close>

theorem Less_asymmetric_iff_single_xmlns:
  "((\<forall>i<Len att. \<forall>j<Len att. i \<noteq> j \<longrightarrow> \<not> (Less att i j \<and> Less att j i))
      \<longleftrightarrow> length (filter (\<lambda>a. Local (Attr.Name a) = ''xmlns'') att) \<le> 1)
   \<and> (Local (Attr.Name (att ! i)) = ''xmlns'' \<and> Local (Attr.Name (att ! j)) = ''xmlns''
        \<longrightarrow> Less att i j \<and> Less att j i)"
proof (intro conjI iffI impI)
  assume asym: "\<forall>i<Len att. \<forall>j<Len att. i \<noteq> j \<longrightarrow> \<not> (Less att i j \<and> Less att j i)"
  show "length (filter (\<lambda>a. Local (Attr.Name a) = ''xmlns'') att) \<le> 1"
  proof (rule ccontr)
    assume "\<not> ?thesis"
    then have "2 \<le> length (filter (\<lambda>a. Local (Attr.Name a) = ''xmlns'') att)" by simp
    from two_filter [OF this] obtain i j where
      "i < j" "j < length att" "Local (Attr.Name (att ! i)) = ''xmlns''"
      "Local (Attr.Name (att ! j)) = ''xmlns''" by blast
    then have "i < Len att" "j < Len att" "i \<noteq> j" "Less att i j" "Less att j i"
      by (simp_all add: Len_def Less_def lessName_def)
    with asym show False by blast
  qed
next
  assume one: "length (filter (\<lambda>a. Local (Attr.Name a) = ''xmlns'') att) \<le> 1"
  show "\<forall>i<Len att. \<forall>j<Len att. i \<noteq> j \<longrightarrow> \<not> (Less att i j \<and> Less att j i)"
  proof (intro allI impI notI)
    fix i j
    assume ij: "i < Len att" "j < Len att" "i \<noteq> j" and both: "Less att i j \<and> Less att j i"
    from both have x: "Local (Attr.Name (att ! i)) = ''xmlns''" "Local (Attr.Name (att ! j)) = ''xmlns''"
      using lessName_both by (auto simp: Less_def)
    have "2 \<le> length (filter (\<lambda>a. Local (Attr.Name a) = ''xmlns'') att)"
    proof (cases "i < j")
      case True
      with ij x show ?thesis by (intro filter_two [of i j]) (simp_all add: Len_def)
    next
      case False
      with ij have "j < i" by simp
      with ij x show ?thesis by (intro filter_two [of j i]) (simp_all add: Len_def)
    qed
    with one show False by simp
  qed
next
  assume "Local (Attr.Name (att ! i)) = ''xmlns'' \<and> Local (Attr.Name (att ! j)) = ''xmlns''"
  then show "Less att i j" and "Less att j i" by (simp_all add: Less_def lessName_def)
qed

theorem Less_asymmetric_witness:
  "Less [\<lparr>Attr.Name = \<lparr>Space = '''', Local = ''xmlns''\<rparr>, Value = ''ns0''\<rparr>,
         \<lparr>Attr.Name = \<lparr>Space = ''urn:p'', Local = ''xmlns''\<rparr>, Value = ''v''\<rparr>] 0 1
   \<and> Less [\<lparr>Attr.Name = \<lparr>Space = '''', Local = ''xmlns''\<rparr>, Value = ''ns0''\<rparr>,
         \<lparr>Attr.Name = \<lparr>Space = ''urn:p'', Local = ''xmlns''\<rparr>, Value = ''v''\<rparr>] 1 0
   \<and> \<not> (Less [\<lparr>Attr.Name = \<lparr>Space = '''', Local = ''xmlns''\<rparr>, Value = ''ns0''\<rparr>,
         \<lparr>Attr.Name = \<lparr>Space = '''', Local = ''y''\<rparr>, Value = ''2''\<rparr>] 0 1
        \<and> Less [\<lparr>Attr.Name = \<lparr>Space = '''', Local = ''xmlns''\<rparr>, Value = ''ns0''\<rparr>,
         \<lparr>Attr.Name = \<lparr>Space = '''', Local = ''y''\<rparr>, Value = ''2''\<rparr>] 1 0)"
  using Less_asymmetric_iff_single_xmlns
          [of "[\<lparr>Attr.Name = \<lparr>Space = '''', Local = ''xmlns''\<rparr>, Value = ''ns0''\<rparr>,
                \<lparr>Attr.Name = \<lparr>Space = ''urn:p'', Local = ''xmlns''\<rparr>, Value = ''v''\<rparr>]" 0 1]
        Less_asymmetric_iff_single_xmlns
          [of "[\<lparr>Attr.Name = \<lparr>Space = '''', Local = ''xmlns''\<rparr>, Value = ''ns0''\<rparr>,
                \<lparr>Attr.Name = \<lparr>Space = '''', Local = ''y''\<rparr>, Value = ''2''\<rparr>]" 0 1]
  by (simp add: Len_def)

subsection \<open>The claims about namespaces, tags, the identifier and errors\<close>

lemma init_fields:
  "namespaces init = []" "out init = []" "firstElem init" "id' init = []"
  by (simp_all add: init_def)










text \<open>
  Claim C8. An element whose namespace URI does not start with \<^verbatim>\<open>http\<close> has the
  namespace string itself as a prefix on both tags, \<^verbatim>\<open><namespace:localName\<close> and
  \<^verbatim>\<open></namespace:localName>\<close>; an element whose namespace URI starts with \<^verbatim>\<open>http\<close> has
  the bare local name on both.
\<close>

theorem element_tags_literal_prefix:
  "fst (writeStartElement w start ns) =
      w @ (if HasPrefix (Space (StartElement.Name start)) ''http''
           then ''<'' @ Local (StartElement.Name start)
           else ''<'' @ Space (StartElement.Name start) @ '':'' @ Local (StartElement.Name start))
        @ snd (writeNameSapce ns [] start)
        @ writeAttrs (sort_Sort (Attr start)) Map.empty [] @ ''>''
   \<and> out (step (StartElement start) s) = fst (writeStartElement (out s) start (namespaces s))
   \<and> out (step (EndElement n) s) =
       out s @ (if HasPrefix (Space n) ''http''
                then ''</'' @ Local n @ ''>''
                else ''</'' @ Space n @ '':'' @ Local n @ ''>'')"
  by (simp add: step_StartElement_out writeStartElement_eq writeNameSapce_eq Let_def
        del: step.simps(1))

text \<open>
  Claim C3. The identifier the call returns is the scan of the attributes of the first
  start token of the stream, in the order the token has them, and the empty string if
  there is none; in the scan the last attribute whose local name is \<^verbatim>\<open>ID\<close>, \<^verbatim>\<open>Id\<close> or
  ends with \<^verbatim>\<open>Id\<close> gives its value, and with no such attribute the identifier stays as
  it was. A start token clears the flag \<^verbatim>\<open>firstElem\<close>, and once it is cleared no token
  changes the identifier. The attributes \<^verbatim>\<open>ID="abc"\<close>, \<^verbatim>\<open>Foo="x"\<close>, \<^verbatim>\<open>BarId="def"\<close> in
  that order give \<^verbatim>\<open>def\<close>.
\<close>

theorem identifier_from_first_start:
  "fst (snd (canonicalize (Inr d))) =
      (case firstStart d of None \<Rightarrow> [] | Some t \<Rightarrow> scanId (Attr t) [])
   \<and> scanId atts i =
      (case filter (\<lambda>a. idName (Local (Attr.Name a))) atts of
         [] \<Rightarrow> i
       | q # qs \<Rightarrow> Value (last (q # qs)))
   \<and> (idName l \<longleftrightarrow> l = ''ID'' \<or> l = ''Id'' \<or> (\<exists>p. l = p @ ''Id''))
   \<and> \<not> firstElem (step (StartElement t) s)
   \<and> (\<not> firstElem s \<longrightarrow> id' (step token s) = id' s \<and> \<not> firstElem (step token s))
   \<and> (\<not> firstElem s \<longrightarrow> id' (loop d' s) = id' s)
   \<and> fst (snd (canonicalize (Inr [Inr (StartElement
        \<lparr>StartElement.Name = \<lparr>Space = '''', Local = ''root''\<rparr>,
         Attr = [\<lparr>Attr.Name = \<lparr>Space = '''', Local = ''ID''\<rparr>, Value = ''abc''\<rparr>,
                 \<lparr>Attr.Name = \<lparr>Space = '''', Local = ''Foo''\<rparr>, Value = ''x''\<rparr>,
                 \<lparr>Attr.Name = \<lparr>Space = '''', Local = ''BarId''\<rparr>, Value = ''def''\<rparr>]\<rparr>)])))
      = ''def''"
proof (intro conjI impI)
  show "fst (snd (canonicalize (Inr d))) =
      (case firstStart d of None \<Rightarrow> [] | Some t \<Rightarrow> scanId (Attr t) [])"
    using loop_id_firstStart [of init d]
    by (simp add: canonicalize_def init_fields split: option.splits)
  show "scanId atts i =
      (case filter (\<lambda>a. idName (Local (Attr.Name a))) atts of
         [] \<Rightarrow> i
       | q # qs \<Rightarrow> Value (last (q # qs)))"
    by (rule scanId_last)
  show "idName l \<longleftrightarrow> l = ''ID'' \<or> l = ''Id'' \<or> (\<exists>p. l = p @ ''Id'')"
    by (simp add: idName_def HasSuffix_iff)
  show "\<not> firstElem (step (StartElement t) s)"
    by (rule step_StartElement_firstElem)
  show "id' (step token s) = id' s" "\<not> firstElem (step token s)" if "\<not> firstElem s"
    using step_keeps_id [OF that] by simp_all
  show "id' (loop d' s) = id' s" if "\<not> firstElem s"
    using loop_keeps_id [OF that] by simp
  show "fst (snd (canonicalize (Inr [Inr (StartElement
        \<lparr>StartElement.Name = \<lparr>Space = '''', Local = ''root''\<rparr>,
         Attr = [\<lparr>Attr.Name = \<lparr>Space = '''', Local = ''ID''\<rparr>, Value = ''abc''\<rparr>,
                 \<lparr>Attr.Name = \<lparr>Space = '''', Local = ''Foo''\<rparr>, Value = ''x''\<rparr>,
                 \<lparr>Attr.Name = \<lparr>Space = '''', Local = ''BarId''\<rparr>, Value = ''def''\<rparr>]\<rparr>)])))
      = ''def''"
    using loop_id_firstStart [of init]
    by (simp add: canonicalize_def init_fields idName_def HasSuffix_def del: loop.simps)
qed

text \<open>
  An instance: after the root element the flag is cleared, and a child with an
  attribute \<^verbatim>\<open>Id\<close> leaves the identifier empty.
\<close>

theorem identifier_from_first_start_witness:
  "\<not> firstElem (step (StartElement \<lparr>StartElement.Name = \<lparr>Space = '''', Local = ''root''\<rparr>, Attr = []\<rparr>) init)
   \<and> id' (loop [Inr (StartElement
        \<lparr>StartElement.Name = \<lparr>Space = '''', Local = ''child''\<rparr>,
         Attr = [\<lparr>Attr.Name = \<lparr>Space = '''', Local = ''Id''\<rparr>, Value = ''late''\<rparr>]\<rparr>)]
        (step (StartElement \<lparr>StartElement.Name = \<lparr>Space = '''', Local = ''root''\<rparr>, Attr = []\<rparr>) init))
      = []"
  using identifier_from_first_start
          [where s = "step (StartElement \<lparr>StartElement.Name = \<lparr>Space = '''', Local = ''root''\<rparr>, Attr = []\<rparr>) init"
             and d' = "[Inr (StartElement
        \<lparr>StartElement.Name = \<lparr>Space = '''', Local = ''child''\<rparr>,
         Attr = [\<lparr>Attr.Name = \<lparr>Space = '''', Local = ''Id''\<rparr>, Value = ''late''\<rparr>]\<rparr>)]"]
        step_StartElement_firstElem [of "\<lparr>StartElement.Name = \<lparr>Space = '''', Local = ''root''\<rparr>, Attr = []\<rparr>" init]
        step_StartElement_id [of "\<lparr>StartElement.Name = \<lparr>Space = '''', Local = ''root''\<rparr>, Attr = []\<rparr>" init]
  by (simp add: init_fields del: step.simps loop.simps)

text \<open>
  Claim C10. The scan does not leave out namespace declarations and compares bytes: a
  root element with the declaration \<^verbatim>\<open>xmlns:fooId="u"\<close> gives the identifier \<^verbatim>\<open>u\<close>, and
  attributes whose local name is exactly \<^verbatim>\<open>id\<close> never set the identifier: the scan gives
  the same with and without them.
\<close>

theorem identifier_scan_is_literal:
  "fst (snd (canonicalize (Inr [Inr (StartElement
        \<lparr>StartElement.Name = \<lparr>Space = '''', Local = ''root''\<rparr>,
         Attr = [\<lparr>Attr.Name = \<lparr>Space = ''xmlns'', Local = ''fooId''\<rparr>, Value = ''u''\<rparr>]\<rparr>)])))
      = ''u''
   \<and> scanId (filter (\<lambda>a. Local (Attr.Name a) \<noteq> ''id'') atts) i = scanId atts i
   \<and> fst (snd (canonicalize (Inr [Inr (StartElement
        \<lparr>StartElement.Name = \<lparr>Space = '''', Local = ''root''\<rparr>,
         Attr = [\<lparr>Attr.Name = \<lparr>Space = '''', Local = ''id''\<rparr>, Value = ''x''\<rparr>]\<rparr>)])))
      = []"
  using loop_id_firstStart [of init]
  by (simp add: canonicalize_def init_fields HasSuffix_def scanId_drop_id del: loop.simps)

text \<open>
  Claim C5. The call returns an error exactly when the marshalling failed, and then it
  returns no bytes and the empty identifier. Any error of the decoder, whatever its kind
  and whatever would follow it, ends the pass like the end of the input: the call
  returns the bytes written for the tokens before it, the identifier, and no error.
\<close>

theorem canonicalize_error_iff_marshal_fails:
  "(snd (snd (canonicalize encoded)) \<noteq> None \<longleftrightarrow> (\<exists>err. encoded = Inl err))
   \<and> canonicalize (Inl err) = ([], [], Some err)
   \<and> canonicalize (Inr (map Inr toks @ Inl fault # rest))
       = (out (fold step toks init), id' (fold step toks init), None)
   \<and> canonicalize (Inr (map Inr toks))
       = (out (fold step toks init), id' (fold step toks init), None)"
  using loop_append_tokens [of toks "[]" init]
  by (cases encoded) (simp_all add: canonicalize_def loop_append_tokens Let_def)




subsection \<open>The prefix map and the arrangement of the attributes\<close>

lemma concat_map_filter_nil:
  "\<forall>x\<in>set xs. \<not> P x \<longrightarrow> f x = [] \<Longrightarrow> concat (map f (filter P xs)) = concat (map f xs)"
  by (induction xs) auto

lemma declared_set:
  assumes "set xs = set ys"
  shows "declared xs = declared ys"
proof
  fix uri
  let ?A = "map (\<lambda>d. Local (Attr.Name d)) (filter (\<lambda>d. isDecl d \<and> Value d = uri) xs)"
  let ?B = "map (\<lambda>d. Local (Attr.Name d)) (filter (\<lambda>d. isDecl d \<and> Value d = uri) ys)"
  have s: "set ?A = set ?B" using assms by simp
  then have "(set ?A = {}) = (set ?B = {})" by (simp only:)
  then have e: "(?A = []) = (?B = [])" by (simp only: set_empty)
  show "declared xs uri = declared ys uri"
    unfolding declared_def Let_def by (simp only: s e)
qed

lemma canon_key_inj:
  assumes "Local n \<noteq> ''xmlns''" "Local m \<noteq> ''xmlns''" "canon_key n = canon_key m"
  shows "n = m"
proof -
  from assms have "Space n = Space m \<and> Local n = Local m"
    unfolding canon_key_def by (cases "Space n = ''xmlns''"; cases "Space m = ''xmlns''") simp_all
  then show ?thesis by simp
qed

lemma written_attributes_unique:
  assumes m: "mset xs = mset ys" and d: "distinct (map Attr.Name xs)"
  shows "filter (\<lambda>a. Local (Attr.Name a) \<noteq> ''xmlns'') (sort_Sort xs)
       = filter (\<lambda>a. Local (Attr.Name a) \<noteq> ''xmlns'') (sort_Sort ys)"
proof -
  let ?P = "\<lambda>a. Local (Attr.Name a) \<noteq> ''xmlns''"
  let ?k = "\<lambda>a. canon_key (Attr.Name a)"
  let ?us = "filter ?P (sort_Sort xs)" and ?vs = "filter ?P (sort_Sort ys)"
  from m have sets: "set ys = set xs" by (metis set_mset_mset)
  from d have injN: "inj_on Attr.Name (set xs)" and dx: "distinct xs"
    by (simp_all add: distinct_map)
  have inj: "inj_on ?k (set ?us \<union> set ?vs)"
  proof (rule inj_onI)
    fix a b
    assume a: "a \<in> set ?us \<union> set ?vs" and b: "b \<in> set ?us \<union> set ?vs" and e: "?k a = ?k b"
    from a b have "a \<in> set xs" "b \<in> set xs" "?P a" "?P b"
      by (auto simp: set_sort_Sort sets)
    with e canon_key_inj [of "Attr.Name a" "Attr.Name b"] injN show "a = b"
      by (auto dest: inj_onD)
  qed
  have dsx: "distinct (sort_Sort xs)"
    using dx mset_sort_Sort [of xs] by (metis mset_eq_imp_distinct_iff)
  have dsy: "distinct (sort_Sort ys)"
    using dx m mset_sort_Sort [of ys] by (metis mset_eq_imp_distinct_iff)
  have inj_us: "inj_on ?k (set ?us)" and inj_vs: "inj_on ?k (set ?vs)"
    using inj by (auto intro: inj_on_subset)
  have "distinct (map ?k ?us)" using dsx inj_us by (simp add: distinct_map)
  moreover have "distinct (map ?k ?vs)" using dsy inj_vs by (simp add: distinct_map)
  moreover have "sorted (map ?k ?us)" using sorted_sort_Sort by (rule sorted_filter)
  moreover have "sorted (map ?k ?vs)" using sorted_sort_Sort by (rule sorted_filter)
  moreover have "set ?us = set ?vs" by (simp add: set_sort_Sort sets)
  ultimately show ?thesis using inj by (intro map_sorted_distinct_set_unique [of ?k])
qed

lemma writeAttrs_sorted_permuted:
  assumes "mset xs = mset ys" and "distinct (map Attr.Name xs)"
  shows "writeAttrs (sort_Sort xs) Map.empty [] = writeAttrs (sort_Sort ys) Map.empty []"
proof -
  let ?P = "\<lambda>a. Local (Attr.Name a) \<noteq> ''xmlns''"
  from assms(1) have "set xs = set ys" by (metis set_mset_mset)
  then have dec: "declared xs = declared ys" by (rule declared_set)
  have skip: "concat (map (\<lambda>a. writeAttrs [a] m []) (filter ?P zs))
      = concat (map (\<lambda>a. writeAttrs [a] m []) zs)" for m zs
    by (rule concat_map_filter_nil) simp
  have "writeAttrs (sort_Sort xs) Map.empty []
      = concat (map (\<lambda>a. writeAttrs [a] (declared xs) []) (filter ?P (sort_Sort xs)))"
    by (simp only: writeAttrs_sorted_declared skip)
  also have "\<dots> = concat (map (\<lambda>a. writeAttrs [a] (declared ys) []) (filter ?P (sort_Sort ys)))"
    by (simp only: dec written_attributes_unique [OF assms])
  also have "\<dots> = writeAttrs (sort_Sort ys) Map.empty []"
    by (simp only: writeAttrs_sorted_declared skip)
  finally show ?thesis .
qed

text \<open>
  The sort and the library. A permutation of a slice in which no later attribute is
  less than an earlier one, which is what any sorting by \<^verbatim>\<open>Less\<close> gives for a strict
  comparator, is the list \<open>sort_Sort\<close> returns, when the attributes have distinct names
  and at most one has the local name \<^verbatim>\<open>xmlns\<close>. On such slices the result does not
  depend on the sorting algorithm.
\<close>

lemma sorted_by_comparator:
  "sorted_wrt (\<lambda>a b. \<not> lessName (Attr.Name b) (Attr.Name a)) ys \<Longrightarrow>
   sorted (map (\<lambda>a. canon_key (Attr.Name a)) ys)"
proof (induction ys)
  case Nil
  then show ?case by simp
next
  case (Cons y ys)
  then show ?case by (auto dest: not_lessName_le)
qed

lemma filter_le_one_eq:
  assumes "length (filter P xs) \<le> 1" "a \<in> set xs" "b \<in> set xs" "P a" "P b"
  shows "a = b"
proof -
  from assms have fa: "a \<in> set (filter P xs)" and fb: "b \<in> set (filter P xs)"
    by simp_all
  from assms(1) consider "filter P xs = []" | c where "filter P xs = [c]"
    by (cases "filter P xs"; cases "tl (filter P xs)") auto
  then show ?thesis
  proof cases
    case 1
    with fa have "a \<in> set []" by (simp only:)
    then show ?thesis by simp
  next
    case 2
    with fa fb have "a \<in> set [c]" "b \<in> set [c]" by (simp_all only:)
    then show ?thesis by simp
  qed
qed

lemma sort_Sort_unique:
  assumes perm: "mset ys = mset att"
    and srt: "sorted_wrt (\<lambda>a b. \<not> lessName (Attr.Name b) (Attr.Name a)) ys"
    and dist: "distinct (map Attr.Name att)"
    and one: "length (filter (\<lambda>a. Local (Attr.Name a) = ''xmlns'') att) \<le> 1"
  shows "ys = sort_Sort att"
proof -
  let ?k = "\<lambda>a. canon_key (Attr.Name a)"
  from perm have sets: "set ys = set att" by (metis set_mset_mset)
  from dist have injN: "inj_on Attr.Name (set att)" and da: "distinct att"
    by (simp_all add: distinct_map)
  have inj: "inj_on ?k (set att)"
  proof (rule inj_onI)
    fix a b
    assume a: "a \<in> set att" and b: "b \<in> set att" and e: "?k a = ?k b"
    show "a = b"
    proof (cases "Local (Attr.Name a) = ''xmlns''")
      case True
      with e have "Local (Attr.Name b) = ''xmlns''"
        by (auto simp: canon_key_def split: if_splits)
      with True one a b show ?thesis
        by (intro filter_le_one_eq [of "\<lambda>a. Local (Attr.Name a) = ''xmlns''" att]) simp_all
    next
      case False
      with e have "Local (Attr.Name b) \<noteq> ''xmlns''"
        by (auto simp: canon_key_def split: if_splits)
      with False e have "Attr.Name a = Attr.Name b" by (intro canon_key_inj)
      with injN a b show ?thesis by (auto dest: inj_onD)
    qed
  qed
  have dy: "distinct ys" using da perm by (metis mset_eq_imp_distinct_iff)
  have ds: "distinct (sort_Sort att)"
    using da mset_sort_Sort [of att] by (metis mset_eq_imp_distinct_iff)
  have "distinct (map ?k ys)" using dy inj by (simp add: distinct_map sets)
  moreover have "distinct (map ?k (sort_Sort att))"
    using ds inj by (simp add: distinct_map set_sort_Sort)
  moreover have "sorted (map ?k ys)" using srt by (rule sorted_by_comparator)
  moreover have "sorted (map ?k (sort_Sort att))" by (rule sorted_sort_Sort)
  moreover have "set ys = set (sort_Sort att)" by (simp add: sets set_sort_Sort)
  moreover have "inj_on ?k (set ys \<union> set (sort_Sort att))"
    using inj by (simp add: sets set_sort_Sort)
  ultimately show ?thesis by (intro map_sorted_distinct_set_unique [of ?k])
qed

text \<open>
  Claim C4 says that the same attributes in any arrangement are written in the same
  order. Two attributes with the same name and different values compare equal, the
  insertion sort leaves them as they stand, and the start tag differs with their
  arrangement.
\<close>

theorem same_name_attributes_counterexample:
  "mset [\<lparr>Attr.Name = \<lparr>Space = '''', Local = ''a''\<rparr>, Value = ''1''\<rparr>,
         \<lparr>Attr.Name = \<lparr>Space = '''', Local = ''a''\<rparr>, Value = ''2''\<rparr>]
     = mset [\<lparr>Attr.Name = \<lparr>Space = '''', Local = ''a''\<rparr>, Value = ''2''\<rparr>,
             \<lparr>Attr.Name = \<lparr>Space = '''', Local = ''a''\<rparr>, Value = ''1''\<rparr>]
   \<and> fst (writeStartElement []
        \<lparr>StartElement.Name = \<lparr>Space = ''http://a'', Local = ''e''\<rparr>,
         Attr = [\<lparr>Attr.Name = \<lparr>Space = '''', Local = ''a''\<rparr>, Value = ''1''\<rparr>,
                 \<lparr>Attr.Name = \<lparr>Space = '''', Local = ''a''\<rparr>, Value = ''2''\<rparr>]\<rparr> [''http://a''])
      = ''<e a='' @ dq @ ''1'' @ dq @ '' a='' @ dq @ ''2'' @ dq @ ''>''
   \<and> fst (writeStartElement []
        \<lparr>StartElement.Name = \<lparr>Space = ''http://a'', Local = ''e''\<rparr>,
         Attr = [\<lparr>Attr.Name = \<lparr>Space = '''', Local = ''a''\<rparr>, Value = ''2''\<rparr>,
                 \<lparr>Attr.Name = \<lparr>Space = '''', Local = ''a''\<rparr>, Value = ''1''\<rparr>]\<rparr> [''http://a''])
      = ''<e a='' @ dq @ ''2'' @ dq @ '' a='' @ dq @ ''1'' @ dq @ ''>''
   \<and> writeStartElement []
        \<lparr>StartElement.Name = \<lparr>Space = ''http://a'', Local = ''e''\<rparr>,
         Attr = [\<lparr>Attr.Name = \<lparr>Space = '''', Local = ''a''\<rparr>, Value = ''1''\<rparr>,
                 \<lparr>Attr.Name = \<lparr>Space = '''', Local = ''a''\<rparr>, Value = ''2''\<rparr>]\<rparr> [''http://a'']
     \<noteq> writeStartElement []
        \<lparr>StartElement.Name = \<lparr>Space = ''http://a'', Local = ''e''\<rparr>,
         Attr = [\<lparr>Attr.Name = \<lparr>Space = '''', Local = ''a''\<rparr>, Value = ''2''\<rparr>,
                 \<lparr>Attr.Name = \<lparr>Space = '''', Local = ''a''\<rparr>, Value = ''1''\<rparr>]\<rparr> [''http://a'']"
  by (simp add: writeStartElement_eq sort_Sort_insr lessName_def HasPrefix_def Top_def)

text \<open>
  Claim C4, as amended. The rewriter is a function of the token stream, so two runs on
  the same stream give the same bytes and the same identifier. For attributes with
  pairwise distinct names, every arrangement of the same attributes gives the same
  start tag.
\<close>

theorem attribute_order_independent_of_arrangement:
  "mset xs = mset ys \<Longrightarrow> distinct (map Attr.Name xs) \<Longrightarrow>
   writeStartElement w (start\<lparr>Attr := xs\<rparr>) ns = writeStartElement w (start\<lparr>Attr := ys\<rparr>) ns"
  using writeAttrs_sorted_permuted [of xs ys] by (simp add: writeStartElement_eq)

text \<open>
  An instance: three attributes in two arrangements.
\<close>

theorem attribute_order_witness:
  "mset [\<lparr>Attr.Name = \<lparr>Space = ''urn:b'', Local = ''z''\<rparr>, Value = ''1''\<rparr>,
         \<lparr>Attr.Name = \<lparr>Space = ''xmlns'', Local = ''b''\<rparr>, Value = ''urn:b''\<rparr>,
         \<lparr>Attr.Name = \<lparr>Space = '''', Local = ''y''\<rparr>, Value = ''2''\<rparr>]
     = mset [\<lparr>Attr.Name = \<lparr>Space = '''', Local = ''y''\<rparr>, Value = ''2''\<rparr>,
             \<lparr>Attr.Name = \<lparr>Space = ''urn:b'', Local = ''z''\<rparr>, Value = ''1''\<rparr>,
             \<lparr>Attr.Name = \<lparr>Space = ''xmlns'', Local = ''b''\<rparr>, Value = ''urn:b''\<rparr>]
   \<and> distinct (map Attr.Name
        [\<lparr>Attr.Name = \<lparr>Space = ''urn:b'', Local = ''z''\<rparr>, Value = ''1''\<rparr>,
         \<lparr>Attr.Name = \<lparr>Space = ''xmlns'', Local = ''b''\<rparr>, Value = ''urn:b''\<rparr>,
         \<lparr>Attr.Name = \<lparr>Space = '''', Local = ''y''\<rparr>, Value = ''2''\<rparr>])
   \<and> writeStartElement [] \<lparr>StartElement.Name = \<lparr>Space = ''http://a'', Local = ''e''\<rparr>,
         Attr = [\<lparr>Attr.Name = \<lparr>Space = ''urn:b'', Local = ''z''\<rparr>, Value = ''1''\<rparr>,
         \<lparr>Attr.Name = \<lparr>Space = ''xmlns'', Local = ''b''\<rparr>, Value = ''urn:b''\<rparr>,
         \<lparr>Attr.Name = \<lparr>Space = '''', Local = ''y''\<rparr>, Value = ''2''\<rparr>]\<rparr> []
     = writeStartElement [] \<lparr>StartElement.Name = \<lparr>Space = ''http://a'', Local = ''e''\<rparr>,
         Attr = [\<lparr>Attr.Name = \<lparr>Space = '''', Local = ''y''\<rparr>, Value = ''2''\<rparr>,
             \<lparr>Attr.Name = \<lparr>Space = ''urn:b'', Local = ''z''\<rparr>, Value = ''1''\<rparr>,
             \<lparr>Attr.Name = \<lparr>Space = ''xmlns'', Local = ''b''\<rparr>, Value = ''urn:b''\<rparr>]\<rparr> []"
proof -
  let ?xs = "[\<lparr>Attr.Name = \<lparr>Space = ''urn:b'', Local = ''z''\<rparr>, Value = ''1''\<rparr>,
         \<lparr>Attr.Name = \<lparr>Space = ''xmlns'', Local = ''b''\<rparr>, Value = ''urn:b''\<rparr>,
         \<lparr>Attr.Name = \<lparr>Space = '''', Local = ''y''\<rparr>, Value = ''2''\<rparr>]"
  let ?ys = "[\<lparr>Attr.Name = \<lparr>Space = '''', Local = ''y''\<rparr>, Value = ''2''\<rparr>,
             \<lparr>Attr.Name = \<lparr>Space = ''urn:b'', Local = ''z''\<rparr>, Value = ''1''\<rparr>,
             \<lparr>Attr.Name = \<lparr>Space = ''xmlns'', Local = ''b''\<rparr>, Value = ''urn:b''\<rparr>]"
  have m: "mset ?xs = mset ?ys" by simp
  have d: "distinct (map Attr.Name ?xs)" by simp
  from attribute_order_independent_of_arrangement
         [OF m d, of "[]" "\<lparr>StartElement.Name = \<lparr>Space = ''http://a'', Local = ''e''\<rparr>, Attr = []\<rparr>" "[]"]
  show ?thesis using m d by simp
qed

text \<open>
  Claim C7. An attribute with a non-empty namespace component other than \<^verbatim>\<open>xmlns\<close> is
  to be written as \<^verbatim>\<open>prefix:localName="value"\<close> with the prefix its element declares for
  the namespace. The loop skips every attribute whose local name is \<^verbatim>\<open>xmlns\<close> before it
  looks at the namespace, under the comment "Skip xmlns declarations they're handled
  above". For the element \<^verbatim>\<open><e xmlns="http://a" xmlns:p="urn:p" p:xmlns="v">\<close> the
  prefix map has \<^verbatim>\<open>p\<close> for \<^verbatim>\<open>urn:p\<close>, and the attribute \<^verbatim>\<open>p:xmlns="v"\<close>, which is no
  declaration, is missing from the start tag.
\<close>

theorem xmlns_named_attribute_dropped:
  "declared
     [\<lparr>Attr.Name = \<lparr>Space = '''', Local = ''xmlns''\<rparr>, Value = ''http://a''\<rparr>,
      \<lparr>Attr.Name = \<lparr>Space = ''xmlns'', Local = ''p''\<rparr>, Value = ''urn:p''\<rparr>,
      \<lparr>Attr.Name = \<lparr>Space = ''urn:p'', Local = ''xmlns''\<rparr>, Value = ''v''\<rparr>] ''urn:p''
     = Some ''p''
   \<and> canonicalize (Inr [Inr (StartElement
        \<lparr>StartElement.Name = \<lparr>Space = ''http://a'', Local = ''e''\<rparr>,
         Attr = [\<lparr>Attr.Name = \<lparr>Space = '''', Local = ''xmlns''\<rparr>, Value = ''http://a''\<rparr>,
                 \<lparr>Attr.Name = \<lparr>Space = ''xmlns'', Local = ''p''\<rparr>, Value = ''urn:p''\<rparr>,
                 \<lparr>Attr.Name = \<lparr>Space = ''urn:p'', Local = ''xmlns''\<rparr>, Value = ''v''\<rparr>]\<rparr>)])
      = (''<e xmlns='' @ dq @ ''http://a'' @ dq @ '' xmlns:p='' @ dq @ ''urn:p'' @ dq @ ''>'',
         [], None)"
  by (simp add: canonicalize_def init_def writeStartElement_eq sort_Sort_insr lessName_def
        HasPrefix_def HasSuffix_def Top_def declared_def isDecl_def)

text \<open>
  The attributes the loop does write. They are written in sorted order, each as the
  loop writes it with the prefix map of the element, \<open>declared\<close>, which holds the
  declarations \<^verbatim>\<open>xmlns:prefix="uri"\<close> of this element and nothing else. An attribute whose
  local name is not \<^verbatim>\<open>xmlns\<close> and whose namespace component is neither empty nor
  \<^verbatim>\<open>xmlns\<close> is written as \<^verbatim>\<open>prefix:localName="value"\<close> with the prefix the map has for its
  namespace URI, and with the empty prefix, \<^verbatim>\<open>:localName="value"\<close>, when the map has
  none. The loop writes nothing for a local name \<^verbatim>\<open>xmlns\<close>. The map has a prefix for a
  URI exactly when a declaration of the element declares the URI, and the prefix is that
  of such a declaration.
\<close>

theorem namespaced_attribute_prefix:
  "fst (writeStartElement w start ns) =
      w @ (if HasPrefix (Space (StartElement.Name start)) ''http''
           then ''<'' @ Local (StartElement.Name start)
           else ''<'' @ Space (StartElement.Name start) @ '':'' @ Local (StartElement.Name start))
        @ snd (writeNameSapce ns [] start)
        @ concat (map (\<lambda>a. writeAttrs [a] (declared (Attr start)) []) (sort_Sort (Attr start)))
        @ ''>''
   \<and> (Local (Attr.Name a) \<noteq> ''xmlns'' \<and> Space (Attr.Name a) \<noteq> []
        \<and> Space (Attr.Name a) \<noteq> ''xmlns''
        \<longrightarrow> writeAttrs [a] m [] =
            '' '' @ (case m (Space (Attr.Name a)) of None \<Rightarrow> [] | Some p \<Rightarrow> p)
              @ '':'' @ Local (Attr.Name a) @ ''='' @ dq @ Value a @ dq)
   \<and> (Local (Attr.Name a) = ''xmlns'' \<longrightarrow> writeAttrs [a] m [] = [])
   \<and> (declared atts uri = None \<longleftrightarrow> (\<forall>d\<in>set atts. \<not> (isDecl d \<and> Value d = uri)))
   \<and> (declared atts uri = Some p \<longrightarrow>
        (\<exists>d\<in>set atts. isDecl d \<and> Value d = uri \<and> Local (Attr.Name d) = p))"
proof (intro conjI impI)
  show "fst (writeStartElement w start ns) =
      w @ (if HasPrefix (Space (StartElement.Name start)) ''http''
           then ''<'' @ Local (StartElement.Name start)
           else ''<'' @ Space (StartElement.Name start) @ '':'' @ Local (StartElement.Name start))
        @ snd (writeNameSapce ns [] start)
        @ concat (map (\<lambda>a. writeAttrs [a] (declared (Attr start)) []) (sort_Sort (Attr start)))
        @ ''>''"
    by (simp add: writeStartElement_eq writeNameSapce_eq writeAttrs_sorted_declared)
  show "writeAttrs [a] m [] =
      '' '' @ (case m (Space (Attr.Name a)) of None \<Rightarrow> [] | Some p \<Rightarrow> p)
        @ '':'' @ Local (Attr.Name a) @ ''='' @ dq @ Value a @ dq"
    if "Local (Attr.Name a) \<noteq> ''xmlns'' \<and> Space (Attr.Name a) \<noteq> []
        \<and> Space (Attr.Name a) \<noteq> ''xmlns''"
    using that by auto
  show "writeAttrs [a] m [] = []" if "Local (Attr.Name a) = ''xmlns''"
    using that by simp
  let ?ps = "map (\<lambda>d. Local (Attr.Name d)) (filter (\<lambda>d. isDecl d \<and> Value d = uri) atts)"
  show "declared atts uri = None \<longleftrightarrow> (\<forall>d\<in>set atts. \<not> (isDecl d \<and> Value d = uri))"
    by (simp add: declared_def Let_def filter_empty_conv)
  show "\<exists>d\<in>set atts. isDecl d \<and> Value d = uri \<and> Local (Attr.Name d) = p"
    if h: "declared atts uri = Some p"
  proof -
    from h have ne: "?ps \<noteq> []" and p: "p = Max (set ?ps)"
      by (auto simp: declared_def Let_def split: if_splits)
    from ne have "set ?ps \<noteq> {}" using set_empty [of ?ps] by blast
    then have "Max (set ?ps) \<in> set ?ps" by (rule Max_in [OF finite_set])
    with p have "p \<in> set ?ps" by simp
    then show ?thesis by auto
  qed
qed

text \<open>
  An instance: an attribute of the namespace \<^verbatim>\<open>urn:p\<close> with and without the declaration
  of \<^verbatim>\<open>p\<close> on its element, and a child element that does not see the declaration its
  parent made.
\<close>

theorem namespaced_attribute_prefix_witness:
  "writeAttrs [\<lparr>Attr.Name = \<lparr>Space = ''urn:p'', Local = ''a''\<rparr>, Value = ''v''\<rparr>]
      (declared [\<lparr>Attr.Name = \<lparr>Space = ''urn:p'', Local = ''a''\<rparr>, Value = ''v''\<rparr>,
                 \<lparr>Attr.Name = \<lparr>Space = ''xmlns'', Local = ''p''\<rparr>, Value = ''urn:p''\<rparr>]) []
     = '' p:a='' @ dq @ ''v'' @ dq
   \<and> writeAttrs [\<lparr>Attr.Name = \<lparr>Space = ''urn:p'', Local = ''a''\<rparr>, Value = ''v''\<rparr>]
      (declared [\<lparr>Attr.Name = \<lparr>Space = ''urn:p'', Local = ''a''\<rparr>, Value = ''v''\<rparr>]) []
     = '' :a='' @ dq @ ''v'' @ dq
   \<and> fst (writeStartElement []
        \<lparr>StartElement.Name = \<lparr>Space = ''http://a'', Local = ''e''\<rparr>,
         Attr = [\<lparr>Attr.Name = \<lparr>Space = ''urn:p'', Local = ''a''\<rparr>, Value = ''v''\<rparr>,
                 \<lparr>Attr.Name = \<lparr>Space = ''xmlns'', Local = ''p''\<rparr>, Value = ''urn:p''\<rparr>]\<rparr>
        [''http://a''])
      = ''<e xmlns:p='' @ dq @ ''urn:p'' @ dq @ '' p:a='' @ dq @ ''v'' @ dq @ ''>''
   \<and> out (loop
        [Inr (StartElement
           \<lparr>StartElement.Name = \<lparr>Space = ''http://a'', Local = ''e''\<rparr>,
            Attr = [\<lparr>Attr.Name = \<lparr>Space = ''xmlns'', Local = ''p''\<rparr>, Value = ''urn:p''\<rparr>]\<rparr>),
         Inr (StartElement
           \<lparr>StartElement.Name = \<lparr>Space = ''http://a'', Local = ''c''\<rparr>,
            Attr = [\<lparr>Attr.Name = \<lparr>Space = ''urn:p'', Local = ''a''\<rparr>, Value = ''v''\<rparr>]\<rparr>)]
        init)
      = ''<e xmlns='' @ dq @ ''http://a'' @ dq @ '' xmlns:p='' @ dq @ ''urn:p'' @ dq @ ''>''
        @ ''<c :a='' @ dq @ ''v'' @ dq @ ''>''"
proof -
  let ?a = "\<lparr>Attr.Name = \<lparr>Space = ''urn:p'', Local = ''a''\<rparr>, Value = ''v''\<rparr>"
  let ?d = "\<lparr>Attr.Name = \<lparr>Space = ''xmlns'', Local = ''p''\<rparr>, Value = ''urn:p''\<rparr>"
  have hyp: "Local (Attr.Name ?a) \<noteq> ''xmlns'' \<and> Space (Attr.Name ?a) \<noteq> []
      \<and> Space (Attr.Name ?a) \<noteq> ''xmlns''" by simp
  have d1: "declared [?a, ?d] ''urn:p'' = Some ''p''"
    by (simp add: declared_def isDecl_def)
  have d0: "declared [?a] ''urn:p'' = None"
    by (simp add: declared_def isDecl_def)
  from namespaced_attribute_prefix [where a = ?a and m = "declared [?a, ?d]", THEN conjunct2,
      THEN conjunct1] hyp d1
  have 1: "writeAttrs [?a] (declared [?a, ?d]) [] = '' p:a='' @ dq @ ''v'' @ dq" by simp
  from namespaced_attribute_prefix [where a = ?a and m = "declared [?a]", THEN conjunct2,
      THEN conjunct1] hyp d0
  have 2: "writeAttrs [?a] (declared [?a]) [] = '' :a='' @ dq @ ''v'' @ dq" by simp
  have 3: "fst (writeStartElement []
        \<lparr>StartElement.Name = \<lparr>Space = ''http://a'', Local = ''e''\<rparr>, Attr = [?a, ?d]\<rparr>
        [''http://a''])
      = ''<e xmlns:p='' @ dq @ ''urn:p'' @ dq @ '' p:a='' @ dq @ ''v'' @ dq @ ''>''"
    by (simp add: writeStartElement_eq sort_Sort_insr lessName_def HasPrefix_def Top_def)
  have 4: "out (loop
        [Inr (StartElement
           \<lparr>StartElement.Name = \<lparr>Space = ''http://a'', Local = ''e''\<rparr>, Attr = [?d]\<rparr>),
         Inr (StartElement
           \<lparr>StartElement.Name = \<lparr>Space = ''http://a'', Local = ''c''\<rparr>, Attr = [?a]\<rparr>)]
        init)
      = ''<e xmlns='' @ dq @ ''http://a'' @ dq @ '' xmlns:p='' @ dq @ ''urn:p'' @ dq @ ''>''
        @ ''<c :a='' @ dq @ ''v'' @ dq @ ''>''"
    by (simp add: writeStartElement_eq sort_Sort_insr lessName_def HasPrefix_def Top_def
          Push_def init_def)
  from 1 2 3 4 show ?thesis by (simp only: simp_thms)
qed

subsection \<open>The canonical order of the attributes\<close>

lemma canon_key_inj_on:
  assumes dist: "distinct (map Attr.Name att)"
    and one: "length (filter (\<lambda>a. Local (Attr.Name a) = ''xmlns'') att) \<le> 1"
  shows "inj_on (\<lambda>a. canon_key (Attr.Name a)) (set att)"
proof (rule inj_onI)
  fix a b
  assume a: "a \<in> set att" and b: "b \<in> set att"
    and e: "canon_key (Attr.Name a) = canon_key (Attr.Name b)"
  from dist have injN: "inj_on Attr.Name (set att)" by (simp add: distinct_map)
  show "a = b"
  proof (cases "Local (Attr.Name a) = ''xmlns''")
    case True
    with e have "Local (Attr.Name b) = ''xmlns''"
      by (auto simp: canon_key_def split: if_splits)
    with True one a b show ?thesis
      by (intro filter_le_one_eq [of "\<lambda>a. Local (Attr.Name a) = ''xmlns''" att]) simp_all
  next
    case False
    with e have "Local (Attr.Name b) \<noteq> ''xmlns''"
      by (auto simp: canon_key_def split: if_splits)
    with False e have "Attr.Name a = Attr.Name b" by (intro canon_key_inj)
    with injN a b show ?thesis by (auto dest: inj_onD)
  qed
qed

lemma strictly_sorted_sort_Sort:
  assumes dist: "distinct (map Attr.Name att)"
    and one: "length (filter (\<lambda>a. Local (Attr.Name a) = ''xmlns'') att) \<le> 1"
  shows "sorted_wrt (<) (map (\<lambda>a. canon_key (Attr.Name a)) (sort_Sort att))"
proof -
  from dist have "distinct att" by (simp add: distinct_map)
  then have "distinct (sort_Sort att)"
    using mset_sort_Sort [of att] by (metis mset_eq_imp_distinct_iff)
  moreover have "inj_on (\<lambda>a. canon_key (Attr.Name a)) (set (sort_Sort att))"
    using canon_key_inj_on [OF dist one] by (simp add: set_sort_Sort)
  ultimately have "distinct (map (\<lambda>a. canon_key (Attr.Name a)) (sort_Sort att))"
    by (simp add: distinct_map)
  with sorted_sort_Sort [of att] show ?thesis by (simp add: strict_sorted_iff)
qed

lemma lessName_strict_on_slice:
  assumes dist: "distinct (map Attr.Name att)"
    and one: "length (filter (\<lambda>a. Local (Attr.Name a) = ''xmlns'') att) \<le> 1"
    and a: "a \<in> set att" and b: "b \<in> set att" and ne: "a \<noteq> b"
  shows "lessName (Attr.Name a) (Attr.Name b)
           \<longleftrightarrow> canon_key (Attr.Name a) < canon_key (Attr.Name b)"
    and "canon_key (Attr.Name a) \<noteq> canon_key (Attr.Name b)"
proof -
  from canon_key_inj_on [OF dist one] a b ne
  show k: "canon_key (Attr.Name a) \<noteq> canon_key (Attr.Name b)" by (auto dest: inj_onD)
  show "lessName (Attr.Name a) (Attr.Name b)
           \<longleftrightarrow> canon_key (Attr.Name a) < canon_key (Attr.Name b)"
  proof (cases "Local (Attr.Name a) = ''xmlns''")
    case True
    have "Local (Attr.Name b) \<noteq> ''xmlns''"
    proof
      assume "Local (Attr.Name b) = ''xmlns''"
      with True one a b have "a = b"
        by (intro filter_le_one_eq [of "\<lambda>a. Local (Attr.Name a) = ''xmlns''" att]) simp_all
      with ne show False by simp
    qed
    with True show ?thesis by (simp add: lessName_key) (simp add: canon_key_def)
  next
    case False
    then show ?thesis by (simp add: lessName_key)
  qed
qed

text \<open>
  Claim C2 says that the attributes of every start token are sorted by a strict total
  order. Two attributes with the same name and different values are not ordered by the
  comparator either way, and the sort leaves them in the arrangement it found; two
  attributes with the local name \<^verbatim>\<open>xmlns\<close> are each less than the other.
\<close>

theorem same_key_attributes_counterexample:
  "\<lparr>Attr.Name = \<lparr>Space = '''', Local = ''k''\<rparr>, Value = ''1''\<rparr>
     \<noteq> \<lparr>Attr.Name = \<lparr>Space = '''', Local = ''k''\<rparr>, Value = ''2''\<rparr>
   \<and> \<not> Less [\<lparr>Attr.Name = \<lparr>Space = '''', Local = ''k''\<rparr>, Value = ''1''\<rparr>,
              \<lparr>Attr.Name = \<lparr>Space = '''', Local = ''k''\<rparr>, Value = ''2''\<rparr>] 0 1
   \<and> \<not> Less [\<lparr>Attr.Name = \<lparr>Space = '''', Local = ''k''\<rparr>, Value = ''1''\<rparr>,
              \<lparr>Attr.Name = \<lparr>Space = '''', Local = ''k''\<rparr>, Value = ''2''\<rparr>] 1 0
   \<and> sort_Sort [\<lparr>Attr.Name = \<lparr>Space = '''', Local = ''k''\<rparr>, Value = ''1''\<rparr>,
                \<lparr>Attr.Name = \<lparr>Space = '''', Local = ''k''\<rparr>, Value = ''2''\<rparr>]
       = [\<lparr>Attr.Name = \<lparr>Space = '''', Local = ''k''\<rparr>, Value = ''1''\<rparr>,
          \<lparr>Attr.Name = \<lparr>Space = '''', Local = ''k''\<rparr>, Value = ''2''\<rparr>]
   \<and> sort_Sort [\<lparr>Attr.Name = \<lparr>Space = '''', Local = ''k''\<rparr>, Value = ''2''\<rparr>,
                \<lparr>Attr.Name = \<lparr>Space = '''', Local = ''k''\<rparr>, Value = ''1''\<rparr>]
       = [\<lparr>Attr.Name = \<lparr>Space = '''', Local = ''k''\<rparr>, Value = ''2''\<rparr>,
          \<lparr>Attr.Name = \<lparr>Space = '''', Local = ''k''\<rparr>, Value = ''1''\<rparr>]
   \<and> Less [\<lparr>Attr.Name = \<lparr>Space = '''', Local = ''xmlns''\<rparr>, Value = ''u''\<rparr>,
            \<lparr>Attr.Name = \<lparr>Space = ''urn:q'', Local = ''xmlns''\<rparr>, Value = ''w''\<rparr>] 0 1
   \<and> Less [\<lparr>Attr.Name = \<lparr>Space = '''', Local = ''xmlns''\<rparr>, Value = ''u''\<rparr>,
            \<lparr>Attr.Name = \<lparr>Space = ''urn:q'', Local = ''xmlns''\<rparr>, Value = ''w''\<rparr>] 1 0"
  by (simp add: Less_def lessName_def sort_Sort_insr)

text \<open>
  Claim C2, as amended. For every start token the attributes are sorted before they are
  written: the attribute loop runs over the sorted slice, which holds the same
  attributes ordered by the key of the three rules (local name \<^verbatim>\<open>xmlns\<close> first; then the
  declarations with namespace component \<^verbatim>\<open>xmlns\<close> by local name; then the others by
  namespace URI, then local name, all by bytewise lexicographic comparison). The
  comparator is the strict order of the keys, but for a first argument with local name
  \<^verbatim>\<open>xmlns\<close>, which it puts before everything. When the names of the attributes are
  pairwise distinct and at most one has the local name \<^verbatim>\<open>xmlns\<close>, the order is strict
  and total on them: their keys differ, the comparator on two of them is the strict
  order of their keys, and the sorted slice ascends strictly.
\<close>

theorem sort_Sort_canonical_order:
  "fst (writeStartElement w start ns) =
      writeAttrs (sort_Sort (Attr start)) Map.empty
        (snd (writeNameSapce ns
           (w @ (if HasPrefix (Space (StartElement.Name start)) ''http''
                 then ''<'' @ Local (StartElement.Name start)
                 else ''<'' @ Space (StartElement.Name start) @ '':''
                        @ Local (StartElement.Name start)))
           start))
      @ ''>''
   \<and> mset (sort_Sort att) = mset att
   \<and> sorted (map (\<lambda>a. canon_key (Attr.Name a)) (sort_Sort att))
   \<and> (lessName n m \<longleftrightarrow> Local n = ''xmlns'' \<or> canon_key n < canon_key m)
   \<and> (distinct (map Attr.Name att)
        \<and> length (filter (\<lambda>a. Local (Attr.Name a) = ''xmlns'') att) \<le> 1
        \<longrightarrow> sorted_wrt (<) (map (\<lambda>a. canon_key (Attr.Name a)) (sort_Sort att))
          \<and> (\<forall>a\<in>set att. \<forall>b\<in>set att. a \<noteq> b \<longrightarrow>
                canon_key (Attr.Name a) \<noteq> canon_key (Attr.Name b)
                \<and> (lessName (Attr.Name a) (Attr.Name b)
                      \<longleftrightarrow> canon_key (Attr.Name a) < canon_key (Attr.Name b))))"
proof (intro conjI impI ballI)
  show "fst (writeStartElement w start ns) =
      writeAttrs (sort_Sort (Attr start)) Map.empty
        (snd (writeNameSapce ns
           (w @ (if HasPrefix (Space (StartElement.Name start)) ''http''
                 then ''<'' @ Local (StartElement.Name start)
                 else ''<'' @ Space (StartElement.Name start) @ '':''
                        @ Local (StartElement.Name start)))
           start))
      @ ''>''"
    by (simp add: writeStartElement_def writeNameSapce_eq Let_def)
  show "mset (sort_Sort att) = mset att" by (rule mset_sort_Sort)
  show "sorted (map (\<lambda>a. canon_key (Attr.Name a)) (sort_Sort att))" by (rule sorted_sort_Sort)
  show "lessName n m \<longleftrightarrow> Local n = ''xmlns'' \<or> canon_key n < canon_key m"
    by (rule lessName_key)
next
  assume "distinct (map Attr.Name att)
    \<and> length (filter (\<lambda>a. Local (Attr.Name a) = ''xmlns'') att) \<le> 1"
  then show "sorted_wrt (<) (map (\<lambda>a. canon_key (Attr.Name a)) (sort_Sort att))"
    by (intro strictly_sorted_sort_Sort) simp_all
next
  fix a b
  assume h: "distinct (map Attr.Name att)
    \<and> length (filter (\<lambda>a. Local (Attr.Name a) = ''xmlns'') att) \<le> 1"
    and ab: "a \<in> set att" "b \<in> set att" "a \<noteq> b"
  from h have d: "distinct (map Attr.Name att)"
    and o: "length (filter (\<lambda>a. Local (Attr.Name a) = ''xmlns'') att) \<le> 1" by simp_all
  show "canon_key (Attr.Name a) \<noteq> canon_key (Attr.Name b)"
    using lessName_strict_on_slice(2) [OF d o ab] .
  show "lessName (Attr.Name a) (Attr.Name b)
      \<longleftrightarrow> canon_key (Attr.Name a) < canon_key (Attr.Name b)"
    using lessName_strict_on_slice(1) [OF d o ab] .
qed

text \<open>
  An instance: the attributes \<^verbatim>\<open>b:z="1"\<close>, \<^verbatim>\<open>xmlns="ns0"\<close>, \<^verbatim>\<open>xmlns:a="nsA"\<close>, \<^verbatim>\<open>y="2"\<close>.
\<close>

theorem sort_Sort_canonical_order_witness:
  "distinct (map Attr.Name
     [\<lparr>Attr.Name = \<lparr>Space = ''urn:b'', Local = ''z''\<rparr>, Value = ''1''\<rparr>,
      \<lparr>Attr.Name = \<lparr>Space = '''', Local = ''xmlns''\<rparr>, Value = ''ns0''\<rparr>,
      \<lparr>Attr.Name = \<lparr>Space = ''xmlns'', Local = ''a''\<rparr>, Value = ''nsA''\<rparr>,
      \<lparr>Attr.Name = \<lparr>Space = '''', Local = ''y''\<rparr>, Value = ''2''\<rparr>])
   \<and> length (filter (\<lambda>a. Local (Attr.Name a) = ''xmlns'')
     [\<lparr>Attr.Name = \<lparr>Space = ''urn:b'', Local = ''z''\<rparr>, Value = ''1''\<rparr>,
      \<lparr>Attr.Name = \<lparr>Space = '''', Local = ''xmlns''\<rparr>, Value = ''ns0''\<rparr>,
      \<lparr>Attr.Name = \<lparr>Space = ''xmlns'', Local = ''a''\<rparr>, Value = ''nsA''\<rparr>,
      \<lparr>Attr.Name = \<lparr>Space = '''', Local = ''y''\<rparr>, Value = ''2''\<rparr>]) \<le> 1
   \<and> sorted_wrt (<) (map (\<lambda>a. canon_key (Attr.Name a)) (sort_Sort
     [\<lparr>Attr.Name = \<lparr>Space = ''urn:b'', Local = ''z''\<rparr>, Value = ''1''\<rparr>,
      \<lparr>Attr.Name = \<lparr>Space = '''', Local = ''xmlns''\<rparr>, Value = ''ns0''\<rparr>,
      \<lparr>Attr.Name = \<lparr>Space = ''xmlns'', Local = ''a''\<rparr>, Value = ''nsA''\<rparr>,
      \<lparr>Attr.Name = \<lparr>Space = '''', Local = ''y''\<rparr>, Value = ''2''\<rparr>]))
   \<and> sort_Sort
     [\<lparr>Attr.Name = \<lparr>Space = ''urn:b'', Local = ''z''\<rparr>, Value = ''1''\<rparr>,
      \<lparr>Attr.Name = \<lparr>Space = '''', Local = ''xmlns''\<rparr>, Value = ''ns0''\<rparr>,
      \<lparr>Attr.Name = \<lparr>Space = ''xmlns'', Local = ''a''\<rparr>, Value = ''nsA''\<rparr>,
      \<lparr>Attr.Name = \<lparr>Space = '''', Local = ''y''\<rparr>, Value = ''2''\<rparr>]
     = [\<lparr>Attr.Name = \<lparr>Space = '''', Local = ''xmlns''\<rparr>, Value = ''ns0''\<rparr>,
        \<lparr>Attr.Name = \<lparr>Space = ''xmlns'', Local = ''a''\<rparr>, Value = ''nsA''\<rparr>,
        \<lparr>Attr.Name = \<lparr>Space = '''', Local = ''y''\<rparr>, Value = ''2''\<rparr>,
        \<lparr>Attr.Name = \<lparr>Space = ''urn:b'', Local = ''z''\<rparr>, Value = ''1''\<rparr>]"
proof -
  let ?att = "[\<lparr>Attr.Name = \<lparr>Space = ''urn:b'', Local = ''z''\<rparr>, Value = ''1''\<rparr>,
      \<lparr>Attr.Name = \<lparr>Space = '''', Local = ''xmlns''\<rparr>, Value = ''ns0''\<rparr>,
      \<lparr>Attr.Name = \<lparr>Space = ''xmlns'', Local = ''a''\<rparr>, Value = ''nsA''\<rparr>,
      \<lparr>Attr.Name = \<lparr>Space = '''', Local = ''y''\<rparr>, Value = ''2''\<rparr>]"
  have d: "distinct (map Attr.Name ?att)" by simp
  have o: "length (filter (\<lambda>a. Local (Attr.Name a) = ''xmlns'') ?att) \<le> 1" by simp
  from sort_Sort_canonical_order [where att = ?att, THEN conjunct2, THEN conjunct2,
      THEN conjunct2, THEN conjunct2] d o
  have s: "sorted_wrt (<) (map (\<lambda>a. canon_key (Attr.Name a)) (sort_Sort ?att))" by blast
  have e: "sort_Sort ?att
     = [\<lparr>Attr.Name = \<lparr>Space = '''', Local = ''xmlns''\<rparr>, Value = ''ns0''\<rparr>,
        \<lparr>Attr.Name = \<lparr>Space = ''xmlns'', Local = ''a''\<rparr>, Value = ''nsA''\<rparr>,
        \<lparr>Attr.Name = \<lparr>Space = '''', Local = ''y''\<rparr>, Value = ''2''\<rparr>,
        \<lparr>Attr.Name = \<lparr>Space = ''urn:b'', Local = ''z''\<rparr>, Value = ''1''\<rparr>]"
    by (simp add: sort_Sort_insr lessName_def)
  from d o s e show ?thesis by (simp only: simp_thms)
qed

end
